theory Spec2Isabelle
  imports Main "HOL-Library.Multiset"
begin

section \<open>Text\<close>

text \<open>
  A Python \<open>str\<close> is modelled as a \<open>string\<close>, one \<open>char\<close> per code point (so the
  model covers texts whose code points are below 256), and \<open>len\<close> is \<open>length\<close>.
\<close>

abbreviation nl :: char where
  "nl \<equiv> CHR 0x0A"

definition digit_char :: "nat \<Rightarrow> char" where
  "digit_char d = ''0123456789'' ! d"

fun str_nat :: "nat \<Rightarrow> string" where
  "str_nat n = (if n < 10 then [digit_char n] else str_nat (n div 10) @ [digit_char (n mod 10)])"

declare str_nat.simps [simp del]

definition str_int :: "int \<Rightarrow> string" where
  \<comment> \<open>\<open>str(i)\<close>, as an f-string renders an \<open>int\<close>.\<close>
  "str_int i = (if i < 0 then ''-'' @ str_nat (nat (- i)) else str_nat (nat i))"

fun split_str :: "char \<Rightarrow> string \<Rightarrow> string list" where
  \<comment> \<open>\<open>s.split(sep)\<close> for a separator of one character.\<close>
  "split_str sep [] = [[]]"
| "split_str sep (c # cs) =
     (if c = sep then [] # split_str sep cs
      else (case split_str sep cs of [] \<Rightarrow> [[c]] | l # ls \<Rightarrow> (c # l) # ls))"

definition basename :: "string \<Rightarrow> string" where
  \<comment> \<open>\<open>os.path.basename\<close>: what follows the last slash.\<close>
  "basename p = rev (takeWhile (\<lambda>c. c \<noteq> CHR ''/'') (rev p))"

section \<open>Syntax trees\<close>

text \<open>
  The nodes of \<open>ast\<close> that the checker tells apart, each with its \<open>lineno\<close> and
  \<open>col_offset\<close>: \<open>Name(id)\<close>, \<open>Attribute(value, attr)\<close>, \<open>Call(func, args and keywords)\<close>,
  \<open>Assign(targets, value)\<close>; every other class is \<open>Other\<close> with its class name and its
  child nodes in field order. A \<open>Name\<close> and an \<open>Attribute\<close> have one more child, their
  \<open>ctx\<close> (\<open>Load\<close>, \<open>Store\<close> or \<open>Del\<close>), a node without children. Python is
  dynamically typed, so a tree built by hand may put any node anywhere; the trees of
  \<open>ast.parse\<close> follow the grammar, where the callee of a call is an expression and
  \<open>Assign\<close> is a statement (\<open>well_formed\<close>). The position of an \<open>Other\<close> node is
  never read.
\<close>

datatype ast =
    Name int int string
  | Attribute int int ast string
  | Call int int ast "ast list"
  | Assign int int "ast list" ast
  | Other int int string "ast list"

fun lineno :: "ast \<Rightarrow> int" where
  "lineno (Name l c i) = l"
| "lineno (Attribute l c v a) = l"
| "lineno (Call l c f as) = l"
| "lineno (Assign l c ts v) = l"
| "lineno (Other l c k cs) = l"

fun col_offset :: "ast \<Rightarrow> int" where
  "col_offset (Name l c i) = c"
| "col_offset (Attribute l c v a) = c"
| "col_offset (Call l c f as) = c"
| "col_offset (Assign l c ts v) = c"
| "col_offset (Other l c k cs) = c"

fun well_formed :: "ast \<Rightarrow> bool" where
  "well_formed (Name l c i) = True"
| "well_formed (Attribute l c v a) = well_formed v"
| "well_formed (Call l c f as) =
     ((case f of Assign l' c' ts v \<Rightarrow> False | _ \<Rightarrow> True) \<and> well_formed f \<and> list_all well_formed as)"
| "well_formed (Assign l c ts v) = (list_all well_formed ts \<and> well_formed v)"
| "well_formed (Other l c k cs) = list_all well_formed cs"

definition ctx :: ast where
  "ctx = Other 0 0 ''Load'' []"

text \<open>
  Nodes are objects, compared and hashed by identity. Every call of \<open>ast.parse\<close> builds
  new objects, and in a tree every object sits at one place. So a reference to a node is
  the number of the parse that built its tree, the path from the root of that tree (the
  indices of the children taken) and the node found there.
\<close>

type_synonym path = "nat list"

record node_ref =
  tree_no :: int
  place :: path
  obj :: ast


section \<open>Violations and checkers\<close>

datatype error = SyntaxError | ValueError | AttributeError | RecursionError | OSError

record violation =
  node :: node_ref
  message :: string

text \<open>
  \<open>Checker\<close> with its subclass \<open>CallImportChecker\<close>. The violation set is kept as a list
  without duplicates; the order in which Python iterates over the set is chosen by the
  hashes of its elements and is a parameter of printing (\<open>set_iter\<close> below).
\<close>

record checker =
  issue_code :: string
  violations :: "violation list"
  exceptions :: "string list"

definition CallImportChecker :: "string \<Rightarrow> checker" where
  "CallImportChecker code = \<lparr>issue_code = code, violations = [], exceptions = [''getLogger'']\<rparr>"

definition add :: "checker \<Rightarrow> violation \<Rightarrow> checker" where
  \<comment> \<open>\<open>self.violations.add(v)\<close>\<close>
  "add self v = self\<lparr>violations := List.insert v (violations self)\<rparr>"

text \<open>
  The interpreter bounds the nesting of Python calls (\<open>sys.getrecursionlimit\<close>) and
  raises \<open>RecursionError\<close> at the call that would exceed it. Every function of the
  traversal therefore takes the number \<open>r\<close> of nested calls still allowed when it is
  called: the call itself takes one of them, and its body calls with \<open>r - 1\<close>. The
  constructor of the named tuple \<open>Violation\<close> is such a call as well.
\<close>

definition Violation :: "nat \<Rightarrow> node_ref \<Rightarrow> string \<Rightarrow> error + violation" where
  "Violation r n m =
     (if r = 0 then Inl RecursionError else Inr \<lparr>node = n, message = m\<rparr>)"

definition add_Violation :: "nat \<Rightarrow> checker \<Rightarrow> node_ref \<Rightarrow> error + checker" where
  \<comment> \<open>\<open>self.violations.add(Violation(node, "Import invoked a Call"))\<close>\<close>
  "add_Violation r self n =
     (case Violation r n ''Import invoked a Call'' of
        Inl e \<Rightarrow> Inl e
      | Inr v \<Rightarrow> Inr (add self v))"

definition visit_Assign :: "nat \<Rightarrow> checker \<Rightarrow> node_ref \<Rightarrow> error + checker" where
  "visit_Assign r self n =
     (if r = 0 then Inl RecursionError
      else if 0 \<noteq> col_offset (obj n) then Inr self
      else (case obj n of
        Assign l c ts (Call l' c' (Attribute l'' c'' v a) as) \<Rightarrow>
          if a \<in> set (exceptions self) then Inr self else add_Violation (r - 1) self n
      | Assign l c ts (Call l' c' (Name l'' c'' i) as) \<Rightarrow>
          if i \<in> set (exceptions self) then Inr self else add_Violation (r - 1) self n
      | Assign l c ts (Call l' c' f as) \<Rightarrow> add_Violation (r - 1) self n
      | _ \<Rightarrow> Inr self))"

definition visit_Call :: "nat \<Rightarrow> checker \<Rightarrow> node_ref \<Rightarrow> error + checker" where
  \<comment> \<open>The second test reads \<open>node.func.id\<close> of a \<open>Name\<close> or an \<open>Assign\<close>; an \<open>Assign\<close>
      has no attribute \<open>id\<close>.\<close>
  "visit_Call r self n =
     (if r = 0 then Inl RecursionError
      else if 0 \<noteq> col_offset (obj n) then Inr self
      else (case obj n of
        Call l c (Attribute l' c' v a) as \<Rightarrow>
          if a \<in> set (exceptions self) then Inr self else add_Violation (r - 1) self n
      | Call l c (Name l' c' i) as \<Rightarrow>
          if i \<in> set (exceptions self) then Inr self else add_Violation (r - 1) self n
      | Call l c (Assign l' c' ts v) as \<Rightarrow> Inl AttributeError
      | _ \<Rightarrow> add_Violation (r - 1) self n))"

text \<open>
  \<open>NodeVisitor.visit\<close> calls the hook named after the node's class when the checker has
  one, and \<open>generic_visit\<close> otherwise, which visits the child nodes in field order. The two
  hooks do not call \<open>generic_visit\<close>. The arguments \<open>t\<close> and \<open>p\<close> are the number of the
  tree and the path of the node visited.
\<close>

fun visit :: "nat \<Rightarrow> checker \<Rightarrow> int \<Rightarrow> path \<Rightarrow> ast \<Rightarrow> error + checker"
  and generic_visit :: "nat \<Rightarrow> checker \<Rightarrow> int \<Rightarrow> path \<Rightarrow> nat \<Rightarrow> ast list \<Rightarrow> error + checker" where
  "visit r self t p (Call l c f as) =
     (if r = 0 then Inl RecursionError
      else visit_Call (r - 1) self \<lparr>tree_no = t, place = p, obj = Call l c f as\<rparr>)"
| "visit r self t p (Assign l c ts v) =
     (if r = 0 then Inl RecursionError
      else visit_Assign (r - 1) self \<lparr>tree_no = t, place = p, obj = Assign l c ts v\<rparr>)"
| "visit r self t p (Name l c i) =
     (if r = 0 then Inl RecursionError else generic_visit (r - 1) self t p 0 [ctx])"
| "visit r self t p (Attribute l c v a) =
     (if r = 0 then Inl RecursionError else generic_visit (r - 1) self t p 0 [v, ctx])"
| "visit r self t p (Other l c k cs) =
     (if r = 0 then Inl RecursionError else generic_visit (r - 1) self t p 0 cs)"
| "generic_visit r self t p i [] = (if r = 0 then Inl RecursionError else Inr self)"
| "generic_visit r self t p i (n # ns) =
     (if r = 0 then Inl RecursionError
      else (case visit (r - 1) self t (p @ [i]) n of
              Inl e \<Rightarrow> Inl e
            | Inr self' \<Rightarrow> generic_visit r self' t p (Suc i) ns))"

section \<open>The linter\<close>

text \<open>
  What the program takes from outside: the parser and \<open>ast.get_source_segment\<close>, the
  order in which a set of violations is iterated, the number of nested calls the
  interpreter still allows where \<open>run\<close> calls \<open>checker.visit\<close>, and the file system. The
  other calls of the program nest to a fixed depth of a few calls, less than any traversal
  that finds a violation needs.
\<close>

record world =
  ast_parse :: "string \<Rightarrow> error + ast"
  ast_get_source_segment :: "string \<Rightarrow> ast \<Rightarrow> string option"
  set_iter :: "violation list \<Rightarrow> violation list"
  recursion_room :: nat
  is_file :: "string \<Rightarrow> bool"
  read_text :: "string \<Rightarrow> error + string"

record linter =
  checkers :: "checker list"

fun interleave_lines :: "string \<Rightarrow> string list \<Rightarrow> string list \<Rightarrow> string list" where
  "interleave_lines left_pad interleave [] = interleave"
| "interleave_lines left_pad interleave (line # lines) =
     (if line = [] then interleave_lines left_pad interleave lines
      else interleave_lines left_pad (interleave @ [line @ [nl], left_pad]) lines)"

definition format_code :: "string \<Rightarrow> string \<Rightarrow> string" where
  "format_code msg code =
     (if code = [] then msg
      else
        (let barrier = '' | '';
             left_pad = replicate (length msg) CHR '' '' @ barrier;
             interleave = [msg @ barrier]
         in if nl \<notin> set code then msg @ barrier @ code
            else concat (interleave_lines left_pad interleave (split_str nl code))))"

definition str_of :: "string option \<Rightarrow> string" where
  \<comment> \<open>How an f-string renders the result of \<open>get_source_segment\<close>.\<close>
  "str_of r = (case r of None \<Rightarrow> ''None'' | Some s \<Rightarrow> s)"

definition render :: "world \<Rightarrow> checker \<Rightarrow> string \<Rightarrow> string \<Rightarrow> bool \<Rightarrow> violation \<Rightarrow> string" where
  \<comment> \<open>The body of the loop of \<open>print_violations\<close>: the text one \<open>print\<close> writes.\<close>
  "render w checker file_name source_code verbose v =
     (let code = (if verbose then str_of (ast_get_source_segment w source_code (obj (node v)))
                  else []);
          msg = file_name @ '':'' @ str_int (lineno (obj (node v))) @ '':''
                    @ str_int (col_offset (obj (node v))) @ '': ''
                    @ issue_code checker @ '': '' @ message v
      in format_code msg code @ [nl])"

definition print_violations ::
  "world \<Rightarrow> checker \<Rightarrow> string \<Rightarrow> string \<Rightarrow> bool \<Rightarrow> checker \<times> string list" where
  "print_violations w checker file_name source_code verbose =
     (checker\<lparr>violations := []\<rparr>,
      map (render w checker file_name source_code verbose) (set_iter w (violations checker)))"

fun run_checkers ::
  "world \<Rightarrow> int \<Rightarrow> ast \<Rightarrow> string \<Rightarrow> string \<Rightarrow> bool \<Rightarrow> checker list
     \<Rightarrow> (error + checker list) \<times> string list" where
  "run_checkers w t tree file_name source_code verbose [] = (Inr [], [])"
| "run_checkers w t tree file_name source_code verbose (checker # rest) =
     (case visit (recursion_room w) checker t [] tree of
        Inl e \<Rightarrow> (Inl e, [])
      | Inr visited \<Rightarrow>
          (let (cleared, out) = print_violations w visited file_name source_code verbose
           in (case run_checkers w t tree file_name source_code verbose rest of
                 (Inl e, out') \<Rightarrow> (Inl e, out @ out')
               | (Inr rest', out') \<Rightarrow> (Inr (cleared # rest'), out @ out'))))"

definition run ::
  "world \<Rightarrow> int \<Rightarrow> linter \<Rightarrow> string \<Rightarrow> string \<Rightarrow> bool \<Rightarrow> (error + linter) \<times> string list" where
  \<comment> \<open>\<open>t\<close> numbers this call's \<open>ast.parse\<close>. The result, and the texts written to standard
      output, one for each \<open>print\<close>.\<close>
  "run w t self file_name source_code verbose =
     (case ast_parse w source_code of
        Inl e \<Rightarrow> (Inl e, [])
      | Inr tree \<Rightarrow>
          (case run_checkers w t tree file_name source_code verbose (checkers self) of
             (Inl e, out) \<Rightarrow> (Inl e, out)
           | (Inr cs, out) \<Rightarrow> (Inr (self\<lparr>checkers := cs\<rparr>), out)))"

record io =
  stdout :: "string list"
  stderr :: "string list"

fun lint_files ::
  "world \<Rightarrow> bool \<Rightarrow> string list \<Rightarrow> linter \<Rightarrow> int \<Rightarrow> io \<Rightarrow> (error + int) \<times> io" where
  \<comment> \<open>Every file linted so far was parsed once, so \<open>linted_files\<close> numbers the next parse.\<close>
  "lint_files w verbose [] linter linted_files out = (Inr linted_files, out)"
| "lint_files w verbose (source_path # rest) linter linted_files out =
     (if \<not> is_file w source_path then
        lint_files w verbose rest linter linted_files
          (if verbose then out\<lparr>stderr := stderr out @ [''ignoring file: '' @ source_path @ [nl]]\<rparr>
           else out)
      else (case read_text w source_path of
        Inl e \<Rightarrow> (Inl e, out)
      | Inr source_code \<Rightarrow>
          (case run w linted_files linter (basename source_path) source_code verbose of
             (Inl e, printed) \<Rightarrow> (Inl e, out\<lparr>stdout := stdout out @ printed\<rparr>)
           | (Inr linter', printed) \<Rightarrow>
               lint_files w verbose rest linter' (linted_files + 1)
                 (out\<lparr>stdout := stdout out @ printed\<rparr>))))"

definition lint :: "world \<Rightarrow> string list \<Rightarrow> bool \<Rightarrow> (error + unit) \<times> io" where
  "lint w files verbose =
     (case lint_files w verbose files \<lparr>checkers = [CallImportChecker ''W001'']\<rparr> 0
             \<lparr>stdout = [], stderr = []\<rparr> of
        (Inl e, out) \<Rightarrow> (Inl e, out)
      | (Inr linted_files, out) \<Rightarrow>
          (Inr (),
           out\<lparr>stderr := stderr out @ [''Analyzed '' @ str_int linted_files @ '' files'' @ [nl] @ [nl]]\<rparr>))"

section \<open>Definitions used in the statements and proofs\<close>

text \<open>
  The hook the specification asks for instead of \<open>visit_Call\<close>: the test for a bare-name
  callee accepts a \<open>Name\<close> only, so every other callee is flagged without reading \<open>id\<close>.
\<close>

definition visit_Call_Name_only :: "nat \<Rightarrow> checker \<Rightarrow> node_ref \<Rightarrow> error + checker" where
  "visit_Call_Name_only r self n =
     (if r = 0 then Inl RecursionError
      else if 0 \<noteq> col_offset (obj n) then Inr self
      else (case obj n of
        Call l c (Attribute l' c' v a) as \<Rightarrow>
          if a \<in> set (exceptions self) then Inr self else add_Violation (r - 1) self n
      | Call l c (Name l' c' i) as \<Rightarrow>
          if i \<in> set (exceptions self) then Inr self else add_Violation (r - 1) self n
      | _ \<Rightarrow> add_Violation (r - 1) self n))"

text \<open>
  The child nodes of a node in field order (the indices of a path), the classes for which
  \<open>CallImportChecker\<close> has a hook, and the node at the end of a path above which no node
  has a hook.
\<close>

fun children :: "ast \<Rightarrow> ast list" where
  "children (Name l c i) = [ctx]"
| "children (Attribute l c v a) = [v, ctx]"
| "children (Call l c f as) = f # as"
| "children (Assign l c ts v) = ts @ [v]"
| "children (Other l c k cs) = cs"

fun has_hook :: "ast \<Rightarrow> bool" where
  "has_hook (Call l c f as) = True"
| "has_hook (Assign l c ts v) = True"
| "has_hook n = False"

fun reached :: "ast \<Rightarrow> path \<Rightarrow> ast option" where
  "reached n [] = Some n"
| "reached n (i # q) =
     (if has_hook n \<or> length (children n) \<le> i then None else reached (children n ! i) q)"

text \<open>
  A number of nested calls that suffices to traverse a node: two for every node on the
  way down (\<open>visit\<close> and \<open>generic_visit\<close>), and three where a hook ends the way (\<open>visit\<close>,
  the hook and \<open>Violation\<close>).
\<close>

fun frames :: "ast \<Rightarrow> nat" and frames_list :: "ast list \<Rightarrow> nat" where
  "frames (Name l c i) = 4"
| "frames (Attribute l c v a) = 2 + max (frames v) 2"
| "frames (Call l c f as) = 3"
| "frames (Assign l c ts v) = 3"
| "frames (Other l c k cs) = 2 + frames_list cs"
| "frames_list [] = 0"
| "frames_list (n # ns) = max (frames n) (frames_list ns)"

definition grows :: "checker \<Rightarrow> checker \<Rightarrow> bool" where
  "grows s s' \<longleftrightarrow> issue_code s' = issue_code s \<and> exceptions s' = exceptions s
     \<and> set (violations s) \<subseteq> set (violations s')
     \<and> (distinct (violations s) \<longrightarrow> distinct (violations s'))"

definition cleared :: "linter \<Rightarrow> linter" where
  "cleared l = l\<lparr>checkers := map (\<lambda>c. c\<lparr>violations := []\<rparr>) (checkers l)\<rparr>"

text \<open>
  The same violation in the tree of another parse, and two checkers that have found the
  same in the trees of two parses of one text.
\<close>

definition retag :: "int \<Rightarrow> violation \<Rightarrow> violation" where
  "retag t v = v\<lparr>node := (node v)\<lparr>tree_no := t\<rparr>\<rparr>"

definition alike :: "int \<Rightarrow> int \<Rightarrow> checker \<Rightarrow> checker \<Rightarrow> bool" where
  "alike t t' s s' \<longleftrightarrow> issue_code s' = issue_code s \<and> exceptions s' = exceptions s
     \<and> violations s' = map (retag t') (violations s)
     \<and> list_all (\<lambda>v. tree_no (node v) = t) (violations s)"

section \<open>Example files\<close>

text \<open>
  Sources with the trees \<open>ast.parse\<close> gives for them; any other text stands for a file
  that does not parse. The last is the name \<open>a\<close> followed by 512 attribute accesses.
\<close>

definition call_source :: string where
  "call_source = ''import re'' @ [nl] @ ''re.search(\"\")'' @ [nl]"

definition call_tree :: ast where
  "call_tree = Other 0 0 ''Module''
     [Other 1 0 ''Import'' [Other 1 7 ''alias'' []],
      Other 2 0 ''Expr''
        [Call 2 0 (Attribute 2 0 (Name 2 0 ''re'') ''search'') [Other 2 10 ''Constant'' []]]]"

definition assign_source :: string where
  "assign_source = ''import re'' @ [nl] @ ''a = re.search(\"\")'' @ [nl]"

definition assign_tree :: ast where
  "assign_tree = Other 0 0 ''Module''
     [Other 1 0 ''Import'' [Other 1 7 ''alias'' []],
      Assign 2 0 [Name 2 0 ''a'']
        (Call 2 4 (Attribute 2 4 (Name 2 4 ''re'') ''search'') [Other 2 14 ''Constant'' []])]"

definition logger_source :: string where
  "logger_source = ''import logging'' @ [nl] @ ''logging.getLogger()'' @ [nl]"

definition logger_tree :: ast where
  "logger_tree = Other 0 0 ''Module''
     [Other 1 0 ''Import'' [Other 1 7 ''alias'' []],
      Other 2 0 ''Expr'' [Call 2 0 (Attribute 2 0 (Name 2 0 ''logging'') ''getLogger'') []]]"

definition nested_source :: string where
  "nested_source = ''f().getLogger()'' @ [nl]"

definition nested_tree :: ast where
  "nested_tree = Other 0 0 ''Module''
     [Other 1 0 ''Expr''
        [Call 1 0 (Attribute 1 0 (Call 1 0 (Name 1 0 ''f'') []) ''getLogger'') []]]"

definition binop_source :: string where
  "binop_source = ''f() + 1'' @ [nl]"

definition binop_tree :: ast where
  "binop_tree = Other 0 0 ''Module''
     [Other 1 0 ''Expr''
        [Other 1 0 ''BinOp''
           [Call 1 0 (Name 1 0 ''f'') [], Other 0 0 ''Add'' [], Other 1 6 ''Constant'' []]]]"

definition two_source :: string where
  "two_source = ''f()'' @ [nl] @ ''g()'' @ [nl]"

definition two_tree :: ast where
  "two_tree = Other 0 0 ''Module''
     [Other 1 0 ''Expr'' [Call 1 0 (Name 1 0 ''f'') []],
      Other 2 0 ''Expr'' [Call 2 0 (Name 2 0 ''g'') []]]"

definition paren_source :: string where
  "paren_source = ''(f())'' @ [nl]"

definition paren_tree :: ast where
  "paren_tree = Other 0 0 ''Module'' [Other 1 0 ''Expr'' [Call 1 1 (Name 1 1 ''f'') []]]"

definition paren_line_source :: string where
  "paren_line_source = ''('' @ [nl] @ ''f())'' @ [nl]"

definition paren_line_tree :: ast where
  "paren_line_tree = Other 0 0 ''Module'' [Other 1 0 ''Expr'' [Call 2 0 (Name 2 0 ''f'') []]]"

definition annotated_source :: string where
  "annotated_source = ''x: int = f()'' @ [nl]"

definition annotated_tree :: ast where
  "annotated_tree = Other 0 0 ''Module''
     [Other 1 0 ''AnnAssign''
        [Name 1 0 ''x'', Name 1 3 ''int'', Call 1 9 (Name 1 9 ''f'') []]]"

definition augmented_source :: string where
  "augmented_source = ''f().x += getLogger()'' @ [nl]"

definition augmented_tree :: ast where
  "augmented_tree = Other 0 0 ''Module''
     [Other 1 0 ''AugAssign''
        [Attribute 1 0 (Call 1 0 (Name 1 0 ''f'') []) ''x'',
         Other 0 0 ''Add'' [],
         Call 1 9 (Name 1 9 ''getLogger'') []]]"

fun attr_chain :: "nat \<Rightarrow> ast" where
  "attr_chain 0 = Name 1 0 ''a''"
| "attr_chain (Suc k) = Attribute 1 0 (attr_chain k) ''b''"

definition deep_source :: string where
  "deep_source = ''a'' @ concat (replicate 512 ''.b'') @ [nl]"

definition deep_tree :: ast where
  "deep_tree = Other 0 0 ''Module'' [Other 1 0 ''Expr'' [attr_chain 512]]"

definition example_parse :: "string \<Rightarrow> error + ast" where
  "example_parse s =
     (if s = call_source then Inr call_tree
      else if s = assign_source then Inr assign_tree
      else if s = logger_source then Inr logger_tree
      else if s = nested_source then Inr nested_tree
      else if s = binop_source then Inr binop_tree
      else if s = two_source then Inr two_tree
      else if s = paren_source then Inr paren_tree
      else if s = paren_line_source then Inr paren_line_tree
      else if s = annotated_source then Inr annotated_tree
      else if s = augmented_source then Inr augmented_tree
      else if s = deep_source then Inr deep_tree
      else Inl SyntaxError)"

definition example_world :: world where
  "example_world =
     \<lparr>ast_parse = example_parse,
      ast_get_source_segment = (\<lambda>s n. None),
      set_iter = (\<lambda>vs. vs),
      recursion_room = 1000,
      is_file = (\<lambda>p. False),
      read_text = (\<lambda>p. Inl OSError)\<rparr>"

definition W001 :: checker where
  "W001 = CallImportChecker ''W001''"

section \<open>The traversal\<close>

lemma add_fields [simp]:
  "issue_code (add s v) = issue_code s"
  "exceptions (add s v) = exceptions s"
  "set (violations (add s v)) = insert v (set (violations s))"
  "distinct (violations s) \<Longrightarrow> distinct (violations (add s v))"
  by (simp_all add: add_def)

lemma add_Violation_cases:
  "add_Violation r s n = Inr s' \<Longrightarrow>
     s' = add s \<lparr>node = n, message = ''Import invoked a Call''\<rparr>"
  by (auto simp: add_Violation_def Violation_def split: if_splits)


lemma visit_Call_cases:
  "visit_Call r s n = Inr s' \<Longrightarrow>
     s' = s \<or> s' = add s \<lparr>node = n, message = ''Import invoked a Call''\<rparr>"
  by (auto simp: visit_Call_def split: if_splits ast.splits dest: add_Violation_cases)

lemma visit_Assign_cases:
  "visit_Assign r s n = Inr s' \<Longrightarrow>
     s' = s \<or> s' = add s \<lparr>node = n, message = ''Import invoked a Call''\<rparr>"
  by (auto simp: visit_Assign_def split: if_splits ast.splits dest: add_Violation_cases)

lemma grows_refl [simp]: "grows s s"
  by (simp add: grows_def)

lemma grows_add [simp]: "grows s (add s v)"
  by (auto simp: grows_def)

lemma grows_trans: "grows a b \<Longrightarrow> grows b c \<Longrightarrow> grows a c"
  by (auto simp: grows_def)

lemma reached_child:
  "\<not> has_hook n \<Longrightarrow> j < length (children n) \<Longrightarrow> reached n (j # q) = reached (children n ! j) q"
  by simp

lemma visit_frame:
  "visit r s t p n = Inr s' \<Longrightarrow>
     grows s s' \<and>
     (\<forall>v\<in>set (violations s'). v \<notin> set (violations s) \<longrightarrow>
        tree_no (node v) = t \<and>
        (\<exists>q. place (node v) = p @ q \<and> reached n q = Some (obj (node v))))"
  "generic_visit r s t p k ns = Inr s' \<Longrightarrow>
     grows s s' \<and>
     (\<forall>v\<in>set (violations s'). v \<notin> set (violations s) \<longrightarrow>
        tree_no (node v) = t \<and>
        (\<exists>j q. j < length ns \<and> place (node v) = p @ (k + j) # q
                \<and> reached (ns ! j) q = Some (obj (node v))))"
proof (induction r s t p n and r s t p k ns arbitrary: s' and s' rule: visit_generic_visit.induct)
  case (1 r self t p l c f as)
  then have "visit_Call (r - 1) self \<lparr>tree_no = t, place = p, obj = Call l c f as\<rparr> = Inr s'"
    by (simp split: if_splits)
  from visit_Call_cases[OF this] show ?case by auto
next
  case (2 r self t p l c ts v)
  then have "visit_Assign (r - 1) self \<lparr>tree_no = t, place = p, obj = Assign l c ts v\<rparr> = Inr s'"
    by (simp split: if_splits)
  from visit_Assign_cases[OF this] show ?case by auto
next
  case (3 r self t p l c i)
  from "3.prems" have r: "r \<noteq> 0" and g: "generic_visit (r - 1) self t p 0 [ctx] = Inr s'"
    by (simp_all split: if_splits)
  from "3.IH"[OF r g] show ?case
    by (auto simp: less_Suc_eq_0_disj)
next
  case (4 r self t p l c v a)
  from "4.prems" have r: "r \<noteq> 0" and g: "generic_visit (r - 1) self t p 0 [v, ctx] = Inr s'"
    by (simp_all split: if_splits)
  have "reached (Attribute l c v a) (j # q) = reached ([v, ctx] ! j) q" if "j < 2" for j q
    using that by simp
  with "4.IH"[OF r g] show ?case
    by (metis length_Cons list.size(3) One_nat_def Suc_1 add_0)
next
  case (5 r self t p l c k cs)
  from "5.prems" have r: "r \<noteq> 0" and g: "generic_visit (r - 1) self t p 0 cs = Inr s'"
    by (simp_all split: if_splits)
  have "reached (Other l c k cs) (j # q) = reached (cs ! j) q" if "j < length cs" for j q
    using that by simp
  with "5.IH"[OF r g] show ?case by (metis add_0)
next
  case (6 r self t p i)
  then show ?case by (simp split: if_splits)
next
  case (7 r self t p i n ns)
  from "7.prems" obtain s1 where r: "r \<noteq> 0"
    and v1: "visit (r - 1) self t (p @ [i]) n = Inr s1"
    and g: "generic_visit r s1 t p (Suc i) ns = Inr s'"
    by (auto split: if_splits sum.splits)
  from "7.IH"(1)[OF r v1] have a: "grows self s1"
    and a': "\<forall>v\<in>set (violations s1). v \<notin> set (violations self) \<longrightarrow>
        tree_no (node v) = t \<and>
        (\<exists>q. place (node v) = (p @ [i]) @ q \<and> reached n q = Some (obj (node v)))"
    by auto
  from "7.IH"(2)[OF r v1 g] have b: "grows s1 s'"
    and b': "\<forall>v\<in>set (violations s'). v \<notin> set (violations s1) \<longrightarrow>
        tree_no (node v) = t \<and>
        (\<exists>j q. j < length ns \<and> place (node v) = p @ (Suc i + j) # q
                \<and> reached (ns ! j) q = Some (obj (node v)))"
    by auto
  have "grows self s'" using a b by (rule grows_trans)
  moreover have "\<forall>v\<in>set (violations s'). v \<notin> set (violations self) \<longrightarrow>
        tree_no (node v) = t \<and>
        (\<exists>j q. j < length (n # ns) \<and> place (node v) = p @ (i + j) # q
                \<and> reached ((n # ns) ! j) q = Some (obj (node v)))"
  proof (intro ballI impI)
    fix v assume v: "v \<in> set (violations s')" and nv: "v \<notin> set (violations self)"
    show "tree_no (node v) = t \<and>
        (\<exists>j q. j < length (n # ns) \<and> place (node v) = p @ (i + j) # q
                \<and> reached ((n # ns) ! j) q = Some (obj (node v)))"
    proof (cases "v \<in> set (violations s1)")
      case True
      with a' nv obtain q where "tree_no (node v) = t" "place (node v) = (p @ [i]) @ q"
        "reached n q = Some (obj (node v))" by blast
      then show ?thesis by (intro conjI exI[of _ 0] exI[of _ q]) simp_all
    next
      case False
      with b' v obtain j q where "tree_no (node v) = t" "j < length ns"
        "place (node v) = p @ (Suc i + j) # q" "reached (ns ! j) q = Some (obj (node v))"
        by blast
      then show ?thesis by (intro conjI exI[of _ "Suc j"] exI[of _ q]) simp_all
    qed
  qed
  ultimately show ?case by blast
qed

lemma frames_ctx [simp]: "frames ctx = 2" "well_formed ctx"
  by (simp_all add: ctx_def)


lemma generic_visit_0 [simp]: "generic_visit 0 s t p k ns = Inl RecursionError"
  by (cases ns) simp_all










section \<open>Running a single checker\<close>




lemma str_int_0: "str_int 0 = ''0''"
  by (simp add: str_int_def str_nat.simps digit_char_def)






text \<open>The trees of the example files.\<close>

lemma example_parses:
  "ast_parse example_world call_source = Inr call_tree"
  "ast_parse example_world assign_source = Inr assign_tree"
  "ast_parse example_world logger_source = Inr logger_tree"
  "ast_parse example_world nested_source = Inr nested_tree"
  "ast_parse example_world binop_source = Inr binop_tree"
  "ast_parse example_world two_source = Inr two_tree"
  "ast_parse example_world paren_source = Inr paren_tree"
  "ast_parse example_world paren_line_source = Inr paren_line_tree"
  "ast_parse example_world annotated_source = Inr annotated_tree"
  "ast_parse example_world augmented_source = Inr augmented_tree"
  "ast_parse example_world deep_source = Inr deep_tree"
  "ast_parse example_world ''f('' = Inl SyntaxError"
  by (simp_all add: example_world_def example_parse_def call_source_def assign_source_def
      logger_source_def nested_source_def binop_source_def two_source_def paren_source_def
      paren_line_source_def annotated_source_def augmented_source_def deep_source_def)

lemma example_world_fields:
  "recursion_room example_world = 1000"
  "set_iter example_world = (\<lambda>vs. vs)"
  "violations W001 = []" "exceptions W001 = [''getLogger'']" "issue_code W001 = ''W001''"
  by (simp_all add: example_world_def W001_def CallImportChecker_def)

section \<open>Calls at the top level of a module\<close>










section \<open>The state between files\<close>

lemma run_checkers_cleared:
  "run_checkers w t tree f src v cs = (Inr cs', out) \<Longrightarrow>
     cs' = map (\<lambda>c. c\<lparr>violations := []\<rparr>) cs"
proof (induction cs arbitrary: cs' out)
  case Nil
  then show ?case by simp
next
  case (Cons c cs)
  from Cons.prems obtain visited rest' out' where
    v: "visit (recursion_room w) c t [] tree = Inr visited"
    and r: "run_checkers w t tree f src v cs = (Inr rest', out')"
    and c': "cs' = visited\<lparr>violations := []\<rparr> # rest'"
    by (auto simp: print_violations_def split: sum.splits prod.splits)
  have "grows c visited" using visit_frame(1)[OF v] by simp
  then have "visited\<lparr>violations := []\<rparr> = c\<lparr>violations := []\<rparr>"
    by (cases c, cases visited) (simp add: grows_def)
  with Cons.IH[OF r] c' show ?case by simp
qed

lemma run_cleared:
  assumes "run w t l f src v = (Inr l', out)"
  shows "l' = cleared l"
proof -
  from assms obtain tree cs where
    r: "run_checkers w t tree f src v (checkers l) = (Inr cs, out)"
    and l': "l' = l\<lparr>checkers := cs\<rparr>"
    by (auto simp: run_def split: sum.splits prod.splits)
  from run_checkers_cleared[OF r] l' show ?thesis by (simp add: cleared_def)
qed

text \<open>
  C4. When a run on a file completes, every checker of the linter holds no violation, and
  a following run on any file behaves as it does from the linter with all violation sets
  emptied: nothing found in the first file is printed with the second.
\<close>

theorem violations_cleared_after_run:
  assumes "run w t_a l file_a source_a verbose_a = (Inr l', out)"
  shows "(\<forall>c\<in>set (checkers l'). violations c = [])
      \<and> run w t_b l' file_b source_b verbose_b = run w t_b (cleared l) file_b source_b verbose_b"
proof -
  have l': "l' = cleared l" using assms by (rule run_cleared)
  then have "\<forall>c\<in>set (checkers l'). violations c = []" by (auto simp: cleared_def)
  with l' show ?thesis by simp
qed

theorem violations_cleared_after_run_witness:
  "run example_world 0 \<lparr>checkers = [W001]\<rparr> ''a.py'' call_source False =
     (Inr \<lparr>checkers = [W001]\<rparr>, [''a.py:2:0: W001: Import invoked a Call'' @ [nl]])
   \<and> run example_world 1 \<lparr>checkers = [W001]\<rparr> ''b.py'' logger_source False =
       run example_world 1 (cleared \<lparr>checkers = [W001]\<rparr>) ''b.py'' logger_source False"
proof -
  have h: "run example_world 0 \<lparr>checkers = [W001]\<rparr> ''a.py'' call_source False =
     (Inr \<lparr>checkers = [W001]\<rparr>, [''a.py:2:0: W001: Import invoked a Call'' @ [nl]])"
    by (simp add: example_parses call_tree_def run_def print_violations_def visit_Call_def
        add_Violation_def Violation_def add_def example_world_fields W001_def
        CallImportChecker_def render_def format_code_def str_int_def str_nat.simps
        digit_char_def)
  from violations_cleared_after_run[OF h, of 1 "''b.py''" logger_source False] h
  show ?thesis by simp
qed

section \<open>Errors\<close>


lemma well_formed_attr_chain [simp]: "well_formed (attr_chain k)"
  by (induction k) simp_all





text \<open>
  C9. On a call whose callee is not an assignment, as in every tree that follows the
  grammar, \<open>visit_Call\<close> returns what the hook whose test accepts a \<open>Name\<close> only returns.
\<close>

theorem assign_alternative_dead:
  assumes "well_formed (Call l c f as)"
  shows "visit_Call r self \<lparr>tree_no = t, place = p, obj = Call l c f as\<rparr> =
     visit_Call_Name_only r self \<lparr>tree_no = t, place = p, obj = Call l c f as\<rparr>"
  using assms by (cases f) (simp_all add: visit_Call_def visit_Call_Name_only_def)

theorem assign_alternative_dead_witness:
  "visit_Call 5 W001 \<lparr>tree_no = 0, place = [1, 0], obj = Call 2 0 (Name 2 0 ''search'') []\<rparr> =
     visit_Call_Name_only 5 W001
       \<lparr>tree_no = 0, place = [1, 0], obj = Call 2 0 (Name 2 0 ''search'') []\<rparr>
   \<and> visit_Call 5 W001 \<lparr>tree_no = 0, place = [1, 0], obj = Call 2 0 (Name 2 0 ''search'') []\<rparr> =
     Inr (add W001
            \<lparr>node = \<lparr>tree_no = 0, place = [1, 0], obj = Call 2 0 (Name 2 0 ''search'') []\<rparr>,
             message = ''Import invoked a Call''\<rparr>)"
proof -
  have h: "well_formed (Call 2 0 (Name 2 0 ''search'') [])" by simp
  from assign_alternative_dead[OF h, of 5 W001 0 "[1, 0]"]
  show ?thesis
    by (simp add: visit_Call_Name_only_def add_Violation_def Violation_def
        example_world_fields)
qed

section \<open>No file to analyse\<close>

lemma lint_files_skipped:
  "\<forall>p\<in>set files. \<not> is_file w p \<Longrightarrow>
     lint_files w verbose files l n out =
       (Inr n, out\<lparr>stderr := stderr out
          @ (if verbose then map (\<lambda>p. ''ignoring file: '' @ p @ [nl]) files else [])\<rparr>)"
  by (induction files arbitrary: out) simp_all

text \<open>
  C10. When no path of the list is an existing regular file, the empty list included,
  \<open>lint\<close> returns normally, has written nothing to standard output, and the last text it
  wrote to the error stream is the summary \<open>Analyzed 0 files\<close>; before it, when verbose,
  stands one note for each path skipped.
\<close>

theorem lint_nothing_to_analyse:
  assumes "\<forall>p\<in>set files. \<not> is_file w p"
  shows "lint w files verbose =
     (Inr (),
      \<lparr>stdout = [],
       stderr = (if verbose then map (\<lambda>p. ''ignoring file: '' @ p @ [nl]) files else [])
                @ [''Analyzed 0 files'' @ [nl, nl]]\<rparr>)"
  using lint_files_skipped[OF assms] by (simp add: lint_def str_int_0)

theorem lint_nothing_to_analyse_witness:
  "lint example_world [] False =
     (Inr (), \<lparr>stdout = [], stderr = [''Analyzed 0 files'' @ [nl, nl]]\<rparr>)
   \<and> lint example_world [''missing.py''] True =
     (Inr (), \<lparr>stdout = [],
               stderr = [''ignoring file: missing.py'' @ [nl], ''Analyzed 0 files'' @ [nl, nl]]\<rparr>)"
proof -
  have h1: "\<forall>p\<in>set []. \<not> is_file example_world p" by simp
  have h2: "\<forall>p\<in>set [''missing.py'']. \<not> is_file example_world p"
    by (simp add: example_world_def)
  from lint_nothing_to_analyse[OF h1, of False] lint_nothing_to_analyse[OF h2, of True]
  show ?thesis by simp
qed

section \<open>The printed text\<close>

lemma interleave_lines_eq:
  "interleave_lines left_pad acc lines =
     acc @ concat (map (\<lambda>line. [line @ [nl], left_pad]) (filter (\<lambda>line. line \<noteq> []) lines))"
  by (induction lines arbitrary: acc) simp_all

lemma concat_pairs:
  "concat (concat (map (\<lambda>line. [line @ [nl], left_pad]) ls)) =
     concat (map (\<lambda>line. line @ [nl] @ left_pad) ls)"
  by (induction ls) simp_all

lemma format_code_multi:
  assumes "nl \<in> set code"
  shows "format_code msg code =
     msg @ '' | '' @ concat (map (\<lambda>line. line @ [nl] @ replicate (length msg) CHR '' '' @ '' | '')
                               (filter (\<lambda>line. line \<noteq> []) (split_str nl code)))"
proof -
  have "code \<noteq> []" using assms by auto
  then show ?thesis
    using assms by (simp add: format_code_def interleave_lines_eq concat_pairs)
qed

text \<open>
  C5, as the claim states it, at the snippet of a call with an empty line between its
  parentheses: the three physical lines are not each followed by a newline and the gutter,
  the empty one is left out.
\<close>

theorem multi_line_snippet_counterexample:
  "split_str nl (''f('' @ [nl, nl] @ ''1)'') = [''f('', [], ''1)'']
   \<and> format_code ''m'' (''f('' @ [nl, nl] @ ''1)'') =
       ''m | '' @ ''f('' @ [nl] @ ''  | '' @ ''1)'' @ [nl] @ ''  | ''
   \<and> format_code ''m'' (''f('' @ [nl, nl] @ ''1)'') \<noteq>
       ''m | '' @ ''f('' @ [nl] @ ''  | '' @ [] @ [nl] @ ''  | '' @ ''1)'' @ [nl] @ ''  | ''"
  by (simp add: format_code_def)

text \<open>
  C5, amended. \<open>print_violations\<close> empties the violation set and prints, for every
  violation, the text \<open>file_name:lineno:col_offset: issue_code: message\<close>, formatted with
  the source segment when verbose and with no code otherwise, and ended by a newline. With
  no code the format is the message alone; a segment without a newline follows the message
  after \<open> | \<close>; of a segment with a newline every line that is not empty follows, each
  ended by a newline and a gutter of as many blanks as the message is long and \<open> | \<close>.
\<close>

theorem printed_line_format:
  "print_violations w ck file_name source_code verbose =
     (ck\<lparr>violations := []\<rparr>,
      map (\<lambda>v. format_code
                  (file_name @ '':'' @ str_int (lineno (obj (node v))) @ '':''
                     @ str_int (col_offset (obj (node v))) @ '': '' @ issue_code ck @ '': ''
                     @ message v)
                  (if verbose then str_of (ast_get_source_segment w source_code (obj (node v)))
                   else [])
                @ [nl])
          (set_iter w (violations ck)))
   \<and> format_code msg [] = msg
   \<and> (code \<noteq> [] \<and> nl \<notin> set code \<longrightarrow> format_code msg code = msg @ '' | '' @ code)
   \<and> (nl \<in> set code \<longrightarrow>
        format_code msg code =
          msg @ '' | ''
            @ concat (map (\<lambda>line. line @ [nl] @ replicate (length msg) CHR '' '' @ '' | '')
                        (filter (\<lambda>line. line \<noteq> []) (split_str nl code))))"
proof (intro conjI impI)
  show "print_violations w ck file_name source_code verbose =
     (ck\<lparr>violations := []\<rparr>,
      map (\<lambda>v. format_code
                  (file_name @ '':'' @ str_int (lineno (obj (node v))) @ '':''
                     @ str_int (col_offset (obj (node v))) @ '': '' @ issue_code ck @ '': ''
                     @ message v)
                  (if verbose then str_of (ast_get_source_segment w source_code (obj (node v)))
                   else [])
                @ [nl])
          (set_iter w (violations ck)))"
    by (simp add: print_violations_def render_def Let_def cong: if_cong)
next
  show "format_code msg [] = msg" by (simp add: format_code_def)
next
  assume "code \<noteq> [] \<and> nl \<notin> set code"
  then show "format_code msg code = msg @ '' | '' @ code" by (simp add: format_code_def)
next
  assume "nl \<in> set code"
  then show "format_code msg code =
          msg @ '' | ''
            @ concat (map (\<lambda>line. line @ [nl] @ replicate (length msg) CHR '' '' @ '' | '')
                        (filter (\<lambda>line. line \<noteq> []) (split_str nl code)))"
    by (rule format_code_multi)
qed

theorem printed_line_format_witness:
  "format_code ''t.py:1:0: W001: Import invoked a Call'' ''f(1)'' =
     ''t.py:1:0: W001: Import invoked a Call | f(1)''
   \<and> format_code ''m'' (''f('' @ [nl] @ ''1)'') =
       ''m | f('' @ [nl] @ ''  | 1)'' @ [nl] @ ''  | ''"
proof -
  have h1: "''f(1)'' \<noteq> [] \<and> nl \<notin> set ''f(1)''" by simp
  have h2: "nl \<in> set (''f('' @ [nl] @ ''1)'')" by simp
  from printed_line_format[of example_world W001 "''t.py''" "[]" False
      "''t.py:1:0: W001: Import invoked a Call''" "''f(1)''"] h1
  have a: "format_code ''t.py:1:0: W001: Import invoked a Call'' ''f(1)'' =
     ''t.py:1:0: W001: Import invoked a Call | f(1)''" by simp
  from printed_line_format[of example_world W001 "''t.py''" "[]" False
      "''m''" "''f('' @ [nl] @ ''1)''"] h2
  have b: "format_code ''m'' (''f('' @ [nl] @ ''1)'') =
       ''m | f('' @ [nl] @ ''  | 1)'' @ [nl] @ ''  | ''" by simp
  from a b show ?thesis by (rule conjI)
qed

section \<open>Calls below nodes without a hook\<close>


lemma well_formed_children:
  "well_formed n \<Longrightarrow> \<not> has_hook n \<Longrightarrow> list_all well_formed (children n)"
  by (cases n) simp_all







section \<open>Two runs on the same input\<close>

lemma render_set_iter:
  "render (w\<lparr>set_iter := it\<rparr>) c f src v = render w c f src v"
  by (rule ext) (simp add: render_def)

lemma render_retag:
  "issue_code c' = issue_code c \<Longrightarrow> render w c' f src v (retag t v') = render w c f src v v'"
  by (simp add: render_def retag_def)

lemma retag_eq_iff:
  "tree_no (node u) = t \<Longrightarrow> tree_no (node v) = t \<Longrightarrow> (retag t' u = retag t' v) = (u = v)"
  by (cases u, cases v, cases "node u", cases "node v") (auto simp: retag_def)

lemma alike_refl: "violations c = [] \<Longrightarrow> alike t t' c c"
  by (simp add: alike_def)

lemma alike_add:
  assumes "alike t t' s s'" and "tree_no (node v) = t"
  shows "alike t t' (add s v) (add s' (retag t' v))"
proof -
  from assms(1) have vs: "violations s' = map (retag t') (violations s)"
    and all: "list_all (\<lambda>v. tree_no (node v) = t) (violations s)"
    by (simp_all add: alike_def)
  have "(retag t' v \<in> retag t' ` set (violations s)) = (v \<in> set (violations s))"
    using all assms(2) by (auto simp: list_all_iff retag_eq_iff)
  then have "List.insert (retag t' v) (map (retag t') (violations s)) =
      map (retag t') (List.insert v (violations s))"
    by (simp add: List.insert_def)
  with assms vs all show ?thesis
    by (auto simp: alike_def add_def List.insert_def list_all_iff)
qed

lemma add_Violation_alike:
  assumes "alike t t' s s'"
  shows "rel_sum (=) (alike t t') (add_Violation r s \<lparr>tree_no = t, place = p, obj = n\<rparr>)
     (add_Violation r s' \<lparr>tree_no = t', place = p, obj = n\<rparr>)"
proof (cases "r = 0")
  case True
  then show ?thesis by (simp add: add_Violation_def Violation_def)
next
  case False
  have "retag t' \<lparr>node = \<lparr>tree_no = t, place = p, obj = n\<rparr>, message = ''Import invoked a Call''\<rparr>
      = \<lparr>node = \<lparr>tree_no = t', place = p, obj = n\<rparr>, message = ''Import invoked a Call''\<rparr>"
    by (simp add: retag_def)
  with alike_add[OF assms, of "\<lparr>node = \<lparr>tree_no = t, place = p, obj = n\<rparr>,
      message = ''Import invoked a Call''\<rparr>"] False
  show ?thesis by (simp add: add_Violation_def Violation_def)
qed

lemma visit_Call_alike:
  assumes "alike t t' s s'"
  shows "rel_sum (=) (alike t t') (visit_Call r s \<lparr>tree_no = t, place = p, obj = n\<rparr>)
     (visit_Call r s' \<lparr>tree_no = t', place = p, obj = n\<rparr>)"
proof -
  have e: "exceptions s' = exceptions s" using assms by (simp add: alike_def)
  show ?thesis
    using assms add_Violation_alike[OF assms, of "r - 1" p n]
    by (auto simp add: visit_Call_def e split: ast.splits)
qed

lemma visit_Assign_alike:
  assumes "alike t t' s s'"
  shows "rel_sum (=) (alike t t') (visit_Assign r s \<lparr>tree_no = t, place = p, obj = n\<rparr>)
     (visit_Assign r s' \<lparr>tree_no = t', place = p, obj = n\<rparr>)"
proof -
  have e: "exceptions s' = exceptions s" using assms by (simp add: alike_def)
  show ?thesis
    using assms add_Violation_alike[OF assms, of "r - 1" p n]
    by (auto simp add: visit_Assign_def e split: ast.splits)
qed

lemma visit_alike:
  "alike t t' s s' \<Longrightarrow> rel_sum (=) (alike t t') (visit r s t p n) (visit r s' t' p n)"
  "alike t t' s s' \<Longrightarrow>
     rel_sum (=) (alike t t') (generic_visit r s t p k ns) (generic_visit r s' t' p k ns)"
proof (induction r s t p n and r s t p k ns arbitrary: s' and s'
    rule: visit_generic_visit.induct)
  case (1 r self t p l c f as)
  then show ?case using visit_Call_alike[of t t' self s' "r - 1" p "Call l c f as"] by simp
next
  case (2 r self t p l c ts v)
  then show ?case using visit_Assign_alike[of t t' self s' "r - 1" p "Assign l c ts v"] by simp
next
  case (3 r self t p l c i)
  show ?case
  proof (cases "r = 0")
    case True
    then show ?thesis by simp
  next
    case False
    with "3.IH"[OF False "3.prems"] show ?thesis by (simp del: generic_visit.simps)
  qed
next
  case (4 r self t p l c v a)
  show ?case
  proof (cases "r = 0")
    case True
    then show ?thesis by simp
  next
    case False
    with "4.IH"[OF False "4.prems"] show ?thesis by (simp del: generic_visit.simps)
  qed
next
  case (5 r self t p l c k cs)
  show ?case
  proof (cases "r = 0")
    case True
    then show ?thesis by simp
  next
    case False
    with "5.IH"[OF False "5.prems"] show ?thesis by (simp del: generic_visit.simps)
  qed
next
  case (6 r self t p i)
  then show ?case by simp
next
  case (7 r self t p i n ns)
  show ?case
  proof (cases "r = 0")
    case True
    then show ?thesis by simp
  next
    case False
    note h = "7.IH"(1)[OF False "7.prems"]
    show ?thesis
    proof (cases "visit (r - 1) self t (p @ [i]) n")
      case (Inl e)
      with h have "visit (r - 1) s' t' (p @ [i]) n = Inl e"
        by (cases "visit (r - 1) s' t' (p @ [i]) n") simp_all
      with Inl False show ?thesis by simp
    next
      case (Inr s1)
      with h obtain s1' where v': "visit (r - 1) s' t' (p @ [i]) n = Inr s1'"
        and a: "alike t t' s1 s1'"
        by (cases "visit (r - 1) s' t' (p @ [i]) n") simp_all
      from "7.IH"(2)[OF False Inr a] Inr v' False show ?thesis by simp
    qed
  qed
qed

lemma run_checkers_twice:
  assumes p1: "\<forall>vs. mset (set_iter w vs) = mset vs" and p2: "\<forall>vs. mset (it vs) = mset vs"
    and clean: "\<forall>c\<in>set cs. violations c = []"
  shows "fst (run_checkers (w\<lparr>set_iter := it\<rparr>) t' tree f src v cs)
           = fst (run_checkers w t tree f src v cs)
    \<and> mset (snd (run_checkers (w\<lparr>set_iter := it\<rparr>) t' tree f src v cs))
        = mset (snd (run_checkers w t tree f src v cs))"
  using clean
proof (induction cs)
  case Nil
  then show ?case by simp
next
  case (Cons c cs)
  obtain r1 o1 where e1: "run_checkers (w\<lparr>set_iter := it\<rparr>) t' tree f src v cs = (r1, o1)"
    by (cases "run_checkers (w\<lparr>set_iter := it\<rparr>) t' tree f src v cs")
  obtain r2 o2 where e2: "run_checkers w t tree f src v cs = (r2, o2)"
    by (cases "run_checkers w t tree f src v cs")
  from Cons e1 e2 have r: "r1 = r2" and o: "mset o1 = mset o2" by simp_all
  have "alike t t' c c" using Cons.prems by (simp add: alike_refl)
  note h = visit_alike(1)[OF this, of "recursion_room w" "[]" tree]
  show ?case
  proof (cases "visit (recursion_room w) c t [] tree")
    case (Inl e)
    with h have "visit (recursion_room w) c t' [] tree = Inl e"
      by (cases "visit (recursion_room w) c t' [] tree") simp_all
    with Inl show ?thesis by simp
  next
    case (Inr s1)
    with h obtain s1' where v': "visit (recursion_room w) c t' [] tree = Inr s1'"
      and a: "alike t t' s1 s1'"
      by (cases "visit (recursion_room w) c t' [] tree") simp_all
    from a have ic: "issue_code s1' = issue_code s1" and ex: "exceptions s1' = exceptions s1"
      and vs: "violations s1' = map (retag t') (violations s1)"
      by (simp_all add: alike_def)
    have cl: "s1'\<lparr>violations := []\<rparr> = s1\<lparr>violations := []\<rparr>"
      using ic ex by (cases s1, cases s1') simp
    have "mset (map (render w s1' f src v) (it (map (retag t') (violations s1))))
        = image_mset (render w s1' f src v) (mset (map (retag t') (violations s1)))"
      using p2 by simp
    also have "\<dots> = image_mset (render w s1 f src v) (mset (violations s1))"
      using ic by (simp add: image_mset.compositionality comp_def render_retag)
    also have "\<dots> = mset (map (render w s1 f src v) (set_iter w (violations s1)))"
      using p1 by simp
    finally have out: "mset (map (render w s1' f src v) (it (map (retag t') (violations s1))))
        = mset (map (render w s1 f src v) (set_iter w (violations s1)))" .
    show ?thesis
      using Inr v' e1 e2 r o out vs cl
      by (cases r2) (simp_all add: print_violations_def render_set_iter)
  qed
qed

lemma mset_eq_short:
  "mset xs = mset ys \<Longrightarrow> length ys \<le> 1 \<Longrightarrow> xs = ys"
  by (cases ys; cases "tl ys") auto

lemma cleared_clean:
  "\<forall>c\<in>set (checkers l). violations c = [] \<Longrightarrow> cleared l = l"
  by (cases l) (simp add: cleared_def map_idI)

lemma run_twice:
  assumes p1: "\<forall>vs. mset (set_iter w vs) = mset vs" and p2: "\<forall>vs. mset (it vs) = mset vs"
    and clean: "\<forall>c\<in>set (checkers l). violations c = []"
  shows "fst (run (w\<lparr>set_iter := it\<rparr>) t' l f src v) = fst (run w t l f src v)
    \<and> mset (snd (run (w\<lparr>set_iter := it\<rparr>) t' l f src v)) = mset (snd (run w t l f src v))"
proof (cases "ast_parse w src")
  case (Inl e)
  then show ?thesis by (simp add: run_def)
next
  case (Inr tree)
  obtain r1 o1 where e1: "run_checkers (w\<lparr>set_iter := it\<rparr>) t' tree f src v (checkers l)
      = (r1, o1)"
    by (cases "run_checkers (w\<lparr>set_iter := it\<rparr>) t' tree f src v (checkers l)")
  obtain r2 o2 where e2: "run_checkers w t tree f src v (checkers l) = (r2, o2)"
    by (cases "run_checkers w t tree f src v (checkers l)")
  from run_checkers_twice[OF p1 p2 clean, of t' tree f src v t] e1 e2
  have "r1 = r2" and "mset o1 = mset o2" by simp_all
  with Inr e1 e2 show ?thesis by (cases r2) (simp_all add: run_def)
qed

text \<open>
  C7, as the claim states it, at a file with the two statements \<open>f()\<close> and \<open>g()\<close>: the
  two violations are printed in the order in which the set is iterated, which the input
  does not fix. The first run leaves the linter as it was, and a second run on the same
  input that iterates the set in the other order writes another text.
\<close>

theorem two_runs_counterexample:
  "run example_world 0 \<lparr>checkers = [W001]\<rparr> ''test.py'' two_source False =
     (Inr \<lparr>checkers = [W001]\<rparr>,
      [''test.py:2:0: W001: Import invoked a Call'' @ [nl],
       ''test.py:1:0: W001: Import invoked a Call'' @ [nl]])
   \<and> run (example_world\<lparr>set_iter := rev\<rparr>) 1 \<lparr>checkers = [W001]\<rparr> ''test.py'' two_source False =
     (Inr \<lparr>checkers = [W001]\<rparr>,
      [''test.py:1:0: W001: Import invoked a Call'' @ [nl],
       ''test.py:2:0: W001: Import invoked a Call'' @ [nl]])
   \<and> concat (snd (run example_world 0 \<lparr>checkers = [W001]\<rparr> ''test.py'' two_source False)) \<noteq>
     concat (snd (run (example_world\<lparr>set_iter := rev\<rparr>) 1 \<lparr>checkers = [W001]\<rparr> ''test.py''
                    two_source False))"
  by (simp add: run_def print_violations_def visit_Call_def add_Violation_def Violation_def
      example_world_def W001_def CallImportChecker_def example_parse_def two_tree_def
      two_source_def binop_source_def nested_source_def call_source_def assign_source_def
      logger_source_def add_def render_def format_code_def str_int_def str_nat.simps
      digit_char_def)

text \<open>
  C7, amended. Take a linter whose violation sets are empty, as \<open>lint\<close> makes it. Two
  runs on the same input, whatever the orders in which they iterate the violation sets,
  end with the same result and print the same texts with the same multiplicities, and
  when at most one text is printed the two outputs are equal. This holds for a second
  run from the same linter, and for a second run from the linter that the first run
  leaves: nothing of the first run is printed again.
\<close>

theorem two_runs_same_lines:
  assumes p1: "\<forall>vs. mset (set_iter w vs) = mset vs" and p2: "\<forall>vs. mset (it vs) = mset vs"
    and clean: "\<forall>c\<in>set (checkers l). violations c = []"
  shows "fst (run (w\<lparr>set_iter := it\<rparr>) t' l file_name source_code verbose)
           = fst (run w t l file_name source_code verbose)
    \<and> mset (snd (run (w\<lparr>set_iter := it\<rparr>) t' l file_name source_code verbose))
        = mset (snd (run w t l file_name source_code verbose))
    \<and> (length (snd (run w t l file_name source_code verbose)) \<le> 1 \<longrightarrow>
         snd (run (w\<lparr>set_iter := it\<rparr>) t' l file_name source_code verbose)
           = snd (run w t l file_name source_code verbose))
    \<and> (\<forall>l1 out1. run w t l file_name source_code verbose = (Inr l1, out1) \<longrightarrow>
          fst (run (w\<lparr>set_iter := it\<rparr>) t' l1 file_name source_code verbose) = Inr l1
          \<and> mset (snd (run (w\<lparr>set_iter := it\<rparr>) t' l1 file_name source_code verbose))
              = mset out1
          \<and> (length out1 \<le> 1 \<longrightarrow>
               snd (run (w\<lparr>set_iter := it\<rparr>) t' l1 file_name source_code verbose) = out1))"
proof -
  note a = run_twice[OF p1 p2 clean, of t' file_name source_code verbose t]
  have b: "length (snd (run w t l file_name source_code verbose)) \<le> 1 \<longrightarrow>
         snd (run (w\<lparr>set_iter := it\<rparr>) t' l file_name source_code verbose)
           = snd (run w t l file_name source_code verbose)"
    using a mset_eq_short by blast
  have c: "\<forall>l1 out1. run w t l file_name source_code verbose = (Inr l1, out1) \<longrightarrow>
          fst (run (w\<lparr>set_iter := it\<rparr>) t' l1 file_name source_code verbose) = Inr l1
          \<and> mset (snd (run (w\<lparr>set_iter := it\<rparr>) t' l1 file_name source_code verbose))
              = mset out1
          \<and> (length out1 \<le> 1 \<longrightarrow>
               snd (run (w\<lparr>set_iter := it\<rparr>) t' l1 file_name source_code verbose) = out1)"
  proof (intro allI impI)
    fix l1 out1
    assume r: "run w t l file_name source_code verbose = (Inr l1, out1)"
    then have "l1 = cleared l" by (rule run_cleared)
    then have l1: "l1 = l" using clean by (simp add: cleared_clean)
    from a b r l1
    show "fst (run (w\<lparr>set_iter := it\<rparr>) t' l1 file_name source_code verbose) = Inr l1
          \<and> mset (snd (run (w\<lparr>set_iter := it\<rparr>) t' l1 file_name source_code verbose))
              = mset out1
          \<and> (length out1 \<le> 1 \<longrightarrow>
               snd (run (w\<lparr>set_iter := it\<rparr>) t' l1 file_name source_code verbose) = out1)"
      by simp
  qed
  from a b c show ?thesis by (intro conjI) simp_all
qed

theorem two_runs_same_lines_witness:
  "run example_world 0 \<lparr>checkers = [W001]\<rparr> ''test.py'' two_source False =
     (Inr \<lparr>checkers = [W001]\<rparr>,
      [''test.py:2:0: W001: Import invoked a Call'' @ [nl],
       ''test.py:1:0: W001: Import invoked a Call'' @ [nl]])
   \<and> fst (run (example_world\<lparr>set_iter := rev\<rparr>) 1 \<lparr>checkers = [W001]\<rparr> ''test.py''
            two_source False) = Inr \<lparr>checkers = [W001]\<rparr>
   \<and> mset (snd (run (example_world\<lparr>set_iter := rev\<rparr>) 1 \<lparr>checkers = [W001]\<rparr> ''test.py''
                 two_source False))
     = mset [''test.py:2:0: W001: Import invoked a Call'' @ [nl],
             ''test.py:1:0: W001: Import invoked a Call'' @ [nl]]"
proof -
  have h1: "\<forall>vs. mset (set_iter example_world vs) = mset vs"
    by (simp add: example_world_fields)
  have h2: "\<forall>vs. mset (rev vs) = mset vs" by simp
  have h3: "\<forall>c\<in>set (checkers \<lparr>checkers = [W001]\<rparr>). violations c = []"
    by (simp add: example_world_fields)
  have h4: "run example_world 0 \<lparr>checkers = [W001]\<rparr> ''test.py'' two_source False =
     (Inr \<lparr>checkers = [W001]\<rparr>,
      [''test.py:2:0: W001: Import invoked a Call'' @ [nl],
       ''test.py:1:0: W001: Import invoked a Call'' @ [nl]])"
    by (simp add: example_parses two_tree_def run_def print_violations_def visit_Call_def
        add_Violation_def Violation_def add_def example_world_fields W001_def
        CallImportChecker_def render_def format_code_def str_int_def str_nat.simps
        digit_char_def)
  from two_runs_same_lines[OF h1 h2 h3, of 1 "''test.py''" two_source False 0]
  have "\<forall>l1 out1. run example_world 0 \<lparr>checkers = [W001]\<rparr> ''test.py'' two_source False
            = (Inr l1, out1) \<longrightarrow>
          fst (run (example_world\<lparr>set_iter := rev\<rparr>) 1 l1 ''test.py'' two_source False) = Inr l1
          \<and> mset (snd (run (example_world\<lparr>set_iter := rev\<rparr>) 1 l1 ''test.py'' two_source False))
              = mset out1
          \<and> (length out1 \<le> 1 \<longrightarrow>
               snd (run (example_world\<lparr>set_iter := rev\<rparr>) 1 l1 ''test.py'' two_source False)
                 = out1)"
    by (elim conjE)
  with h4 show ?thesis by simp
qed

end
